theory Spec2Isabelle
  imports Main
begin

section \<open>The event registry of \<open>Observable.ts\<close>\<close>

subsection \<open>Values, names and listeners\<close>

text \<open>
  The values a payload can take. \<open>fire\<close> computes \<open>options || {}\<close>, so the model keeps
  the distinction JavaScript makes between truthy and falsy values. Numbers are modelled
  by integers; an object is the list of its fields, \<open>JObj []\<close> being \<open>{}\<close>.
  \<open>JTypeError\<close> is the \<open>TypeError\<close> that the engine raises when the code calls a
  property that is not a function (\<open>x.push is not a function\<close>).
\<close>

datatype jsval =
    JUndefined
  | JNull
  | JBool bool
  | JNum int
  | JStr string
  | JObj "(string \<times> jsval) list"
  | JTypeError

fun truthy :: "jsval \<Rightarrow> bool" where
  "truthy JUndefined = False"
| "truthy JNull = False"
| "truthy (JBool b) = b"
| "truthy (JNum n) = (n \<noteq> 0)"
| "truthy (JStr s) = (s \<noteq> [])"
| "truthy (JObj fs) = True"
| "truthy JTypeError = True"

text \<open>\<open>a || b\<close> on values.\<close>

definition or_else :: "jsval \<Rightarrow> jsval \<Rightarrow> jsval" where
  "or_else a b = (if truthy a then a else b)"

text \<open>
  An event name is a property key, \<open>K extends string | number | symbol\<close>. A numeric key
  is the same property as its decimal string, so \<open>Str\<close> covers both; \<open>Sym\<close> is a symbol
  that client code created.
\<close>

datatype key = Str string | Sym nat

fun is_string_key :: "key \<Rightarrow> bool" where
  "is_string_key (Str s) = True"
| "is_string_key (Sym n) = False"

text \<open>
  The table is created as \<open>{}\<close>, an object whose prototype is \<open>Object.prototype\<close>. Reading
  \<open>table[name]\<close> for a name that the table does not hold itself finds the property of that
  name on the prototype, when there is one. These are the properties of
  \<open>Object.prototype\<close>; each holds a function, or for \<open>__proto__\<close> the prototype object:
  a truthy value that is not an array. None of them is enumerable, and none has a symbol
  as its key.
\<close>

definition object_prototype_names :: "string list" where
  "object_prototype_names =
     [''constructor'', ''hasOwnProperty'', ''isPrototypeOf'', ''propertyIsEnumerable'',
      ''toLocaleString'', ''toString'', ''valueOf'', ''__proto__'',
      ''__defineGetter__'', ''__defineSetter__'', ''__lookupGetter__'', ''__lookupSetter__'']"

fun inherited :: "key \<Rightarrow> bool" where
  "inherited (Str name) = (name \<in> set object_prototype_names)"
| "inherited (Sym n) = False"

text \<open>
  A listener is a function, compared by reference (\<open>indexOf\<close> uses \<open>===\<close>). \<open>Fn f\<close> is
  the client function with reference \<open>f\<close>. \<open>OnceWrapper c name handler\<close> is the arrow
  function that \<open>once\<close> creates: \<open>c\<close> is the identity of that closure, \<open>name\<close> and
  \<open>handler\<close> are the variables it captures.
\<close>

datatype listener = Fn nat | OnceWrapper nat key listener

text \<open>
  The three shapes of the arguments of \<open>on\<close>, \<open>once\<close> and \<open>off\<close>: nothing, an event name
  with an optional handler, or an object of name/handler pairs. The object is given by
  its own enumerable properties and by the enumerable properties of its prototype chain,
  nearest prototype first, each in the order in which they are enumerated; an object
  literal \<open>{a: f, b: g}\<close> is \<open>Handlers [(a, f), (b, g)] []\<close>.
\<close>

datatype args =
    NoArgs
  | Name key "listener option"
  | Handlers "(key \<times> listener) list" "(key \<times> listener) list"

text \<open>
  The functions returned as disposers: \<open>() => this.off(...)\<close>, \<open>() => false\<close> and
  \<open>() => disposers.forEach((d) => d())\<close>.
\<close>

datatype disposer =
    OffWith args
  | ReturnFalse
  | ForEach "disposer list"

subsection \<open>The state and the ways a call ends\<close>

text \<open>
  \<open>this\<close> inside a listener: the observable itself, or \<open>undefined\<close> for a plain call.
\<close>

datatype receiver = Owner | NoThis

text \<open>
  \<open>eventListeners\<close> holds the own properties of the field \<open>__eventListeners\<close>, each an
  array of listeners. The field is initialised to \<open>{}\<close>, which makes the guards
  \<open>if (!this.__eventListeners)\<close> dead code; they are left out.
  \<open>closures\<close> counts the arrow functions created so far and gives the next one its
  identity. \<open>calls\<close> records every call of a client function: which function, its
  \<open>this\<close> and its argument.
\<close>

record observable =
  eventListeners :: "key \<Rightarrow> listener list option"
  closures :: nat
  calls :: "(nat \<times> receiver \<times> jsval) list"

definition new_observable :: observable where
  "new_observable = \<lparr>eventListeners = Map.empty, closures = 0, calls = []\<rparr>"

text \<open>
  What \<open>this.__eventListeners[eventName]\<close> evaluates to: the array the table holds under
  the name, else the value inherited from \<open>Object.prototype\<close>, else \<open>undefined\<close>.
\<close>

datatype slot = Listeners "listener list" | Inherited | Absent

definition lookup :: "observable \<Rightarrow> key \<Rightarrow> slot" where
  "lookup s eventName =
     (case eventListeners s eventName of
        Some ls \<Rightarrow> Listeners ls
      | None \<Rightarrow> if inherited eventName then Inherited else Absent)"

text \<open>
  A call returns a value or raises an exception; the state changes made before the
  exception stay. \<open>completion\<close> is used where the value matters (\<open>on\<close> and \<open>once\<close> return a
  disposer), \<open>outcome\<close> where it does not. A \<open>result\<close> of \<open>None\<close> means that the model does
  not follow the program: the bound on nested calls was reached, or the prototype of the
  table was replaced (see \<open>removeEventListener\<close>).
\<close>

datatype 'a completion = Normal 'a | Abrupt jsval

datatype outcome = Returned | Threw jsval

type_synonym result = "(outcome \<times> observable) option"

text \<open>
  \<open>for (const eventName in obj)\<close> visits the enumerable string-keyed properties of the
  object and then those of its prototype chain, each name once; a property whose key is
  a symbol is skipped. \<open>obj[eventName]\<close> is the value nearest to the object, which is the
  one of the first pair with that name.
\<close>

fun unshadowed :: "key list \<Rightarrow> (key \<times> 'a) list \<Rightarrow> (key \<times> 'a) list" where
  "unshadowed seen [] = []"
| "unshadowed seen (p # ps) =
     (if fst p \<in> set seen then unshadowed seen ps else p # unshadowed (fst p # seen) ps)"

definition for_in :: "(key \<times> 'a) list \<Rightarrow> (key \<times> 'a) list \<Rightarrow> (key \<times> 'a) list" where
  "for_in own chain = unshadowed [] (filter (\<lambda>p. is_string_key (fst p)) (own @ chain))"

subsection \<open>\<open>on\<close>\<close>

text \<open>
  The branch of \<open>on\<close> for an event name (lines 48 to 58). With a handler: when
  \<open>this.__eventListeners[eventName]\<close> is falsy, which only \<open>undefined\<close> is, an empty array is
  stored; then \<open>.push(handler)\<close> appends to the array, or raises \<open>TypeError\<close> when the
  value found is the one inherited from \<open>Object.prototype\<close>, which has no \<open>push\<close>. The
  value returned is \<open>() => this.off(eventName, handler)\<close>. Without a handler nothing is
  done.
\<close>

fun on_name :: "observable \<Rightarrow> key \<Rightarrow> listener option \<Rightarrow> observable \<times> disposer completion" where
  "on_name s eventName (Some handler) =
     (let s1 = (if lookup s eventName = Absent
                then s\<lparr>eventListeners := (eventListeners s)(eventName \<mapsto> [])\<rparr>
                else s)
      in case lookup s1 eventName of
           Listeners ls \<Rightarrow>
             (s1\<lparr>eventListeners := (eventListeners s1)(eventName \<mapsto> ls @ [handler])\<rparr>,
              Normal (OffWith (Name eventName (Some handler))))
         | Inherited \<Rightarrow> (s1, Abrupt JTypeError)
         | Absent \<Rightarrow> (s1, Abrupt JTypeError))"
| "on_name s eventName None = (s, Normal ReturnFalse)"

text \<open>
  The loop of \<open>on\<close> over an object: each pair goes through \<open>this.on\<close> again, where the
  name is a string and so takes the branch above; an exception ends the loop.
\<close>

fun on_each :: "observable \<Rightarrow> (key \<times> listener) list \<Rightarrow> observable \<times> unit completion" where
  "on_each s [] = (s, Normal ())"
| "on_each s ((eventName, handler) # rest) =
     (case on_name s eventName (Some handler) of
        (s', Normal d) \<Rightarrow> on_each s' rest
      | (s', Abrupt e) \<Rightarrow> (s', Abrupt e))"

fun on :: "observable \<Rightarrow> args \<Rightarrow> observable \<times> disposer completion" where
  "on s (Handlers own chain) =
     (case on_each s (for_in own chain) of
        (s', Normal u) \<Rightarrow> (s', Normal (OffWith (Handlers own chain)))
      | (s', Abrupt e) \<Rightarrow> (s', Abrupt e))"
| "on s (Name arg0 handler) = on_name s arg0 handler"
| "on s NoArgs = (s, Normal ReturnFalse)"

subsection \<open>\<open>off\<close>\<close>

text \<open>\<open>indexOf\<close>: the first index holding the element, or \<open>-1\<close>.\<close>

fun indexOf :: "'a list \<Rightarrow> 'a \<Rightarrow> int" where
  "indexOf [] x = -1"
| "indexOf (y # ys) x =
     (if y = x then 0 else (let i = indexOf ys x in if i < 0 then -1 else i + 1))"

text \<open>\<open>splice(index, 1)\<close> for an index that is in range.\<close>

definition splice1 :: "'a list \<Rightarrow> nat \<Rightarrow> 'a list" where
  "splice1 xs i = take i xs @ drop (Suc i) xs"

text \<open>
  \<open>_removeEventListener\<close>. The guard returns when the value found is falsy, that is
  \<open>undefined\<close>. On an array, a handler is searched and spliced out, and without a handler
  a new empty array is stored. On the value inherited from \<open>Object.prototype\<close>, a handler
  leads to \<open>eventListener.indexOf(handler)\<close>, which raises \<open>TypeError\<close>; without a handler
  the assignment stores an empty array in the table, except under \<open>__proto__\<close>, where
  the assignment replaces the prototype of the table. What the table inherits after that is
  not modelled, and the result is \<open>None\<close>. No overload of \<open>off\<close> reaches that case: the
  call without a handler is made by \<open>off()\<close> only, on the names the table holds itself.
\<close>

definition removeEventListener :: "observable \<Rightarrow> key \<Rightarrow> listener option \<Rightarrow> result" where
  "removeEventListener s eventName handler =
     (case lookup s eventName of
        Absent \<Rightarrow> Some (Returned, s)
      | Listeners eventListener \<Rightarrow>
          (case handler of
             Some h \<Rightarrow>
               (let index = indexOf eventListener h
                in if index > -1
                   then Some (Returned,
                          s\<lparr>eventListeners :=
                              (eventListeners s)(eventName \<mapsto> splice1 eventListener (nat index))\<rparr>)
                   else Some (Returned, s))
           | None \<Rightarrow> Some (Returned, s\<lparr>eventListeners := (eventListeners s)(eventName \<mapsto> [])\<rparr>))
      | Inherited \<Rightarrow>
          (case handler of
             Some h \<Rightarrow> Some (Threw JTypeError, s)
           | None \<Rightarrow>
               if eventName = Str ''__proto__'' then None
               else Some (Returned, s\<lparr>eventListeners := (eventListeners s)(eventName \<mapsto> [])\<rparr>)))"

text \<open>
  \<open>off()\<close> walks the table itself with \<open>for ... in\<close> and calls
  \<open>_removeEventListener(eventName)\<close> on each name visited. The names visited are the
  string-keyed names that the table holds (\<open>Object.prototype\<close> has no enumerable
  property), and for such a name the call stores an empty array under that name and
  touches no other: every string-keyed entry becomes \<open>[]\<close>, every other entry is left as
  it is.
\<close>

definition off_all :: "observable \<Rightarrow> observable" where
  "off_all s =
     s\<lparr>eventListeners :=
         (\<lambda>eventName.
            if is_string_key eventName \<and> eventListeners s eventName \<noteq> None
            then Some []
            else eventListeners s eventName)\<rparr>"

text \<open>The loop of \<open>off\<close> over an object; an exception ends the loop.\<close>

fun off_each :: "observable \<Rightarrow> (key \<times> listener) list \<Rightarrow> result" where
  "off_each s [] = Some (Returned, s)"
| "off_each s ((eventName, handler) # rest) =
     (case removeEventListener s eventName (Some handler) of
        Some (Returned, s') \<Rightarrow> off_each s' rest
      | r \<Rightarrow> r)"

fun off :: "observable \<Rightarrow> args \<Rightarrow> result" where
  "off s NoArgs = Some (Returned, off_all s)"
| "off s (Handlers own chain) = off_each s (for_in own chain)"
| "off s (Name arg0 handler) = removeEventListener s arg0 handler"

text \<open>Running a disposer. \<open>forEach\<close> stops at a disposer that raises.\<close>

fun dispose :: "observable \<Rightarrow> disposer \<Rightarrow> result"
  and dispose_each :: "observable \<Rightarrow> disposer list \<Rightarrow> result"
where
  "dispose s (OffWith a) = off s a"
| "dispose s ReturnFalse = Some (Returned, s)"
| "dispose s (ForEach ds) = dispose_each s ds"
| "dispose_each s [] = Some (Returned, s)"
| "dispose_each s (d # ds) =
     (case dispose s d of
        Some (Returned, s') \<Rightarrow> dispose_each s' ds
      | r \<Rightarrow> r)"

subsection \<open>\<open>once\<close>\<close>

text \<open>
  The branch of \<open>once\<close> for an event name: a new arrow function is registered with
  \<open>on\<close>, and the disposer \<open>on\<close> returns is both captured by the arrow function and
  returned to the caller. When \<open>on\<close> raises, so does \<open>once\<close>.
\<close>

fun once_name :: "observable \<Rightarrow> key \<Rightarrow> listener option \<Rightarrow> observable \<times> disposer completion" where
  "once_name s arg0 (Some handler) =
     on_name (s\<lparr>closures := Suc (closures s)\<rparr>) arg0
       (Some (OnceWrapper (closures s) arg0 handler))"
| "once_name s arg0 None = (s, Normal ReturnFalse)"

fun once_each ::
  "observable \<Rightarrow> (key \<times> listener) list \<Rightarrow> observable \<times> disposer list completion"
where
  "once_each s [] = (s, Normal [])"
| "once_each s ((eventName, handler) # rest) =
     (case once_name s eventName (Some handler) of
        (s', Abrupt e) \<Rightarrow> (s', Abrupt e)
      | (s', Normal d) \<Rightarrow>
          (case once_each s' rest of
             (s'', Abrupt e) \<Rightarrow> (s'', Abrupt e)
           | (s'', Normal ds) \<Rightarrow> (s'', Normal (d # ds))))"

fun once :: "observable \<Rightarrow> args \<Rightarrow> observable \<times> disposer completion" where
  "once s (Handlers own chain) =
     (case once_each s (for_in own chain) of
        (s', Normal disposers) \<Rightarrow> (s', Normal (ForEach disposers))
      | (s', Abrupt e) \<Rightarrow> (s', Abrupt e))"
| "once s (Name arg0 handler) = once_name s arg0 handler"
| "once s NoArgs = (s, Normal ReturnFalse)"

subsection \<open>\<open>fire\<close> and the listeners it calls\<close>

text \<open>
  What a client function does when called is client code. The model gives each function
  reference a script: the calls it makes on the observable, in order, and possibly a
  \<open>throw\<close>. An exception raised by one of those calls ends the script.
\<close>

datatype action =
    DoOn args
  | DoOnce args
  | DoOff args
  | DoFire key jsval
  | DoThrow jsval

text \<open>
  The loop of \<open>fire\<close> over the copied array: each listener is called in turn, and a
  listener that throws ends the loop, nothing catching the exception. \<open>invoke\<close> is what
  calling a listener with \<open>this\<close> the observable does.
\<close>

fun call_each ::
  "(listener \<Rightarrow> jsval \<Rightarrow> observable \<Rightarrow> result) \<Rightarrow> listener list \<Rightarrow> jsval \<Rightarrow> observable \<Rightarrow> result"
where
  "call_each invoke [] arg s = Some (Returned, s)"
| "call_each invoke (l # ls) arg s =
     (case invoke l arg s of
        Some (Returned, s') \<Rightarrow> call_each invoke ls arg s'
      | r \<Rightarrow> r)"

text \<open>
  \<open>fire\<close>: \<open>this.__eventListeners[eventName]?.concat()\<close> is taken once, before the
  loop, and the loop reads the copy only. \<open>?.\<close> stops at \<open>undefined\<close>; on the value
  inherited from \<open>Object.prototype\<close> it goes on to call \<open>concat\<close>, which that value does
  not have, and \<open>TypeError\<close> is raised.
\<close>

definition fire_with ::
  "(listener \<Rightarrow> jsval \<Rightarrow> observable \<Rightarrow> result) \<Rightarrow> observable \<Rightarrow> key \<Rightarrow> jsval \<Rightarrow> result"
where
  "fire_with invoke s eventName options =
     (case lookup s eventName of
        Absent \<Rightarrow> Some (Returned, s)
      | Inherited \<Rightarrow> Some (Threw JTypeError, s)
      | Listeners listenersForEvent \<Rightarrow>
          call_each invoke listenersForEvent (or_else options (JObj [])) s)"

fun run_with ::
  "(listener \<Rightarrow> jsval \<Rightarrow> observable \<Rightarrow> result) \<Rightarrow> action list \<Rightarrow> observable \<Rightarrow> result"
where
  "run_with invoke [] s = Some (Returned, s)"
| "run_with invoke (DoOn a # rest) s =
     (case on s a of
        (s', Normal d) \<Rightarrow> run_with invoke rest s'
      | (s', Abrupt e) \<Rightarrow> Some (Threw e, s'))"
| "run_with invoke (DoOnce a # rest) s =
     (case once s a of
        (s', Normal d) \<Rightarrow> run_with invoke rest s'
      | (s', Abrupt e) \<Rightarrow> Some (Threw e, s'))"
| "run_with invoke (DoOff a # rest) s =
     (case off s a of
        Some (Returned, s') \<Rightarrow> run_with invoke rest s'
      | r \<Rightarrow> r)"
| "run_with invoke (DoFire eventName options # rest) s =
     (case fire_with invoke s eventName options of
        Some (Returned, s') \<Rightarrow> run_with invoke rest s'
      | r \<Rightarrow> r)"
| "run_with invoke (DoThrow e # rest) s = Some (Threw e, s)"

text \<open>
  Calling a listener. The first argument bounds the depth of nested calls (a listener
  may fire an event, whose listeners may fire again, without end): \<open>None\<close> says that the
  bound was reached. \<open>bodies\<close> gives each client function its script.

  A client function is recorded in \<open>calls\<close> and its script is run. The arrow function
  of \<open>once\<close> is \<open>(...args) => { handler(...args); disposer(); }\<close>: the handler is called
  as a plain function with the same arguments, and \<open>disposer()\<close>, which is
  \<open>this.off(arg0, <the arrow function>)\<close>, runs when the handler has returned.
\<close>

fun call ::
  "nat \<Rightarrow> (nat \<Rightarrow> action list) \<Rightarrow> receiver \<Rightarrow> listener \<Rightarrow> jsval \<Rightarrow> observable \<Rightarrow> result"
where
  "call 0 bodies this l arg s = None"
| "call (Suc n) bodies this (Fn f) arg s =
     run_with (call n bodies Owner) (bodies f) (s\<lparr>calls := calls s @ [(f, this, arg)]\<rparr>)"
| "call (Suc n) bodies this (OnceWrapper c arg0 handler) arg s =
     (case call n bodies NoThis handler arg s of
        Some (Returned, s') \<Rightarrow>
          dispose s' (OffWith (Name arg0 (Some (OnceWrapper c arg0 handler))))
      | r \<Rightarrow> r)"

text \<open>
  \<open>fire\<close> as the owner or another caller invokes it, nested calls being followed to the
  depth \<open>n\<close>. An omitted payload is \<open>JUndefined\<close>.
\<close>

definition fire ::
  "nat \<Rightarrow> (nat \<Rightarrow> action list) \<Rightarrow> observable \<Rightarrow> key \<Rightarrow> jsval \<Rightarrow> result"
where
  "fire n bodies s eventName options = fire_with (call n bodies Owner) s eventName options"

subsection \<open>Notions used in the statements\<close>

text \<open>The listeners stored under a name, an absent entry counting as no listener.\<close>

definition stored :: "observable \<Rightarrow> key \<Rightarrow> listener list" where
  "stored s eventName = (case eventListeners s eventName of None \<Rightarrow> [] | Some ls \<Rightarrow> ls)"

text \<open>The calls that \<open>fire\<close> makes when it calls the functions \<open>fs\<close> in turn with \<open>arg\<close>.\<close>

definition called :: "jsval \<Rightarrow> nat list \<Rightarrow> (nat \<times> receiver \<times> jsval) list" where
  "called arg fs = map (\<lambda>f. (f, Owner, arg)) fs"

text \<open>Scripts given as a table; a function without an entry does nothing.\<close>

definition scripts :: "(nat \<times> action list) list \<Rightarrow> nat \<Rightarrow> action list" where
  "scripts table f = (case map_of table f of None \<Rightarrow> [] | Some body \<Rightarrow> body)"

text \<open>Concrete states for the examples.\<close>

definition three_listeners :: observable where
  "three_listeners =
     \<lparr>eventListeners = [Str ''tick'' \<mapsto> [Fn 0, Fn 1, Fn 2]], closures = 0, calls = []\<rparr>"

text \<open>What the caller of \<open>fire\<close> sees: how the call ended and the calls made so far.\<close>

definition observed :: "result \<Rightarrow> (outcome \<times> (nat \<times> receiver \<times> jsval) list) option" where
  "observed r = (case r of None \<Rightarrow> None | Some (out, s) \<Rightarrow> Some (out, calls s))"


text \<open>How many of the calls \<open>cs\<close> are calls of the function \<open>f\<close>.\<close>

definition times_called :: "nat \<Rightarrow> (nat \<times> receiver \<times> jsval) list \<Rightarrow> nat" where
  "times_called f cs = length (filter (\<lambda>c. fst c = f) cs)"


text \<open>
  More concrete states and scripts: a new observable after \<open>once('load', f0)\<close>, the same
  after \<open>fire('load')\<close> when \<open>f0\<close> returns, and scripts where \<open>f0\<close> throws.
\<close>

definition once_load :: observable where
  "once_load = fst (once new_observable (Name (Str ''load'') (Some (Fn 0))))"


definition boom :: "nat \<Rightarrow> action list" where
  "boom = scripts [(0, [DoThrow (JStr ''boom'')])]"

text \<open>A new observable after \<open>on('tick', f0)\<close>, and after a second \<open>on('tick', f0)\<close>.\<close>

definition tick_once :: observable where
  "tick_once = fst (on new_observable (Name (Str ''tick'') (Some (Fn 0))))"

definition tick_twice :: observable where
  "tick_twice = fst (on tick_once (Name (Str ''tick'') (Some (Fn 0))))"

text \<open>
  Scripts where \<open>f1\<close> subscribes \<open>f2\<close> to \<open>'tick'\<close> and \<open>f3\<close> removes \<open>f4\<close> from \<open>'load'\<close>,
  and a state with \<open>f1\<close> under \<open>'tick'\<close> and \<open>f3\<close>, \<open>f4\<close> under \<open>'load'\<close>.
\<close>

definition reentrant :: "nat \<Rightarrow> action list" where
  "reentrant = scripts [(1, [DoOn (Name (Str ''tick'') (Some (Fn 2)))]),
                        (3, [DoOff (Name (Str ''load'') (Some (Fn 4)))])]"

definition two_names :: observable where
  "two_names =
     \<lparr>eventListeners = [Str ''tick'' \<mapsto> [Fn 1], Str ''load'' \<mapsto> [Fn 3, Fn 4]],
      closures = 0, calls = []\<rparr>"

text \<open>A new observable after \<open>on(sym, f0)\<close> for a symbol \<open>sym\<close>.\<close>

definition symbol_once :: observable where
  "symbol_once = \<lparr>eventListeners = [Sym 0 \<mapsto> [Fn 0]], closures = 0, calls = []\<rparr>"





section \<open>Properties\<close>

subsection \<open>What the table gives for a name\<close>

lemma lookup_own: "eventListeners s k = Some ls \<Longrightarrow> lookup s k = Listeners ls"
  by (simp add: lookup_def)

lemma lookup_Listeners: "(lookup s k = Listeners ls) = (eventListeners s k = Some ls)"
  by (auto simp: lookup_def split: option.splits)

lemma lookup_none:
  "eventListeners s k = None \<Longrightarrow> lookup s k = (if inherited k then Inherited else Absent)"
  by (simp add: lookup_def)

lemma stored_own: "eventListeners s k = Some ls \<Longrightarrow> stored s k = ls"
  by (simp add: stored_def)

subsection \<open>Removal\<close>

lemma indexOf_lower: "-1 \<le> indexOf xs x"
  by (induction xs) (auto simp: Let_def)

lemma indexOf_found: "(indexOf xs x > -1) = (x \<in> set xs)"
  using indexOf_lower [of _ x] by (induction xs) (auto simp: Let_def)

lemma splice1_indexOf: "x \<in> set xs \<Longrightarrow> splice1 xs (nat (indexOf xs x)) = remove1 x xs"
proof (induction xs)
  case Nil
  then show ?case by simp
next
  case (Cons y ys)
  show ?case
  proof (cases "y = x")
    case True
    then show ?thesis by (simp add: splice1_def)
  next
    case False
    with Cons.prems have mem: "x \<in> set ys" by simp
    then have pos: "0 \<le> indexOf ys x" using indexOf_found [of ys x] by simp
    have "splice1 ys (nat (indexOf ys x)) = remove1 x ys" using Cons.IH mem by simp
    with False pos show ?thesis by (simp add: splice1_def Let_def nat_add_distrib)
  qed
qed

lemma removeEventListener_absent:
  "lookup s k = Absent \<Longrightarrow> removeEventListener s k h = Some (Returned, s)"
  by (simp add: removeEventListener_def)

lemma removeEventListener_inherited:
  "lookup s k = Inherited \<Longrightarrow> removeEventListener s k (Some h) = Some (Threw JTypeError, s)"
  by (simp add: removeEventListener_def)

lemma removeEventListener_handler:
  assumes "eventListeners s k = Some ls"
  shows "removeEventListener s k (Some h)
           = Some (Returned, s\<lparr>eventListeners := (eventListeners s)(k \<mapsto> remove1 h ls)\<rparr>)"
proof (cases "h \<in> set ls")
  case True
  then show ?thesis
    using assms by (simp add: removeEventListener_def lookup_own indexOf_found splice1_indexOf)
next
  case False
  then have "(eventListeners s)(k \<mapsto> remove1 h ls) = eventListeners s"
    using assms by (simp add: remove1_idem fun_upd_idem)
  with False show ?thesis
    using assms by (simp add: removeEventListener_def lookup_own indexOf_found)
qed

lemma removeEventListener_clear:
  "eventListeners s k = Some ls \<Longrightarrow>
   removeEventListener s k None
     = Some (Returned, s\<lparr>eventListeners := (eventListeners s)(k \<mapsto> [])\<rparr>)"
  by (simp add: removeEventListener_def lookup_own)

lemma off_not_stored:
  assumes "l \<notin> set (stored s N)" and "lookup s N \<noteq> Inherited"
  shows "off s (Name N (Some l)) = Some (Returned, s)"
proof (cases "eventListeners s N")
  case None
  with assms(2) have "lookup s N = Absent" by (simp add: lookup_def split: if_splits)
  then show ?thesis by (simp add: removeEventListener_absent)
next
  case (Some ls)
  with assms(1) have "remove1 l ls = ls" by (simp add: stored_def remove1_idem)
  with Some show ?thesis by (simp add: removeEventListener_handler fun_upd_idem)
qed

lemma remove1_first:
  "l \<notin> set pre \<Longrightarrow> remove1 l (pre @ l # post) = pre @ post"
  by (induction pre) auto

lemma off_first_occurrence:
  assumes "eventListeners t N = Some (pre @ l # post)" and "l \<notin> set pre"
  shows "off t (Name N (Some l))
           = Some (Returned, t\<lparr>eventListeners := (eventListeners t)(N \<mapsto> pre @ post)\<rparr>)"
  using assms by (simp add: removeEventListener_handler remove1_first)

subsection \<open>Registration\<close>

lemma on_name_own:
  "eventListeners s N = Some ls \<Longrightarrow>
   on_name s N (Some h)
     = (s\<lparr>eventListeners := (eventListeners s)(N \<mapsto> ls @ [h])\<rparr>,
        Normal (OffWith (Name N (Some h))))"
  by (simp add: lookup_def)

lemma on_name_absent:
  "lookup s N = Absent \<Longrightarrow>
   on_name s N (Some h)
     = (s\<lparr>eventListeners := (eventListeners s)(N \<mapsto> [h])\<rparr>,
        Normal (OffWith (Name N (Some h))))"
  by (simp add: lookup_def)

lemma on_name_inherited:
  "lookup s N = Inherited \<Longrightarrow> on_name s N (Some h) = (s, Abrupt JTypeError)"
  by (simp add: lookup_def split: option.splits if_splits)

lemma on_name_returns:
  assumes "lookup s N \<noteq> Inherited"
  shows "on_name s N (Some h)
           = (s\<lparr>eventListeners := (eventListeners s)(N \<mapsto> stored s N @ [h])\<rparr>,
              Normal (OffWith (Name N (Some h))))"
proof (cases "eventListeners s N")
  case None
  with assms have "lookup s N = Absent" by (simp add: lookup_def split: if_splits)
  with None show ?thesis by (simp add: on_name_absent stored_def del: on_name.simps)
next
  case (Some ls)
  then show ?thesis by (simp add: on_name_own stored_def del: on_name.simps)
qed

lemma on_name_Normal:
  assumes "snd (on_name s N (Some h)) = Normal d"
  shows "lookup s N \<noteq> Inherited"
proof
  assume "lookup s N = Inherited"
  then have "on_name s N (Some h) = (s, Abrupt JTypeError)" by (rule on_name_inherited)
  with assms show False by simp
qed

lemma calls_on_name [simp]: "calls (fst (on_name s k h)) = calls s"
proof (cases h)
  case None
  then show ?thesis by simp
next
  case (Some x)
  show ?thesis
  proof (cases "lookup s k = Inherited")
    case True
    with Some show ?thesis by (simp add: on_name_inherited del: on_name.simps)
  next
    case False
    with Some show ?thesis by (simp add: on_name_returns del: on_name.simps)
  qed
qed

subsection \<open>Calling listeners\<close>

lemma call_each_append:
  "call_each c (xs @ ys) arg s =
     (case call_each c xs arg s of
        Some (Returned, s') \<Rightarrow> call_each c ys arg s'
      | r \<Rightarrow> r)"
  by (induction xs arbitrary: s) (auto split: option.splits prod.splits outcome.splits)


lemma call_each_inert:
  "\<forall>g\<in>set gs. bodies g = [] \<Longrightarrow>
   call_each (call (Suc n) bodies Owner) (map Fn gs) arg s =
     Some (Returned, s\<lparr>calls := calls s @ called arg gs\<rparr>)"
  by (induction gs arbitrary: s) (simp_all add: called_def)

lemma fire_own:
  "eventListeners s N = Some ls \<Longrightarrow>
   fire n bodies s N P = call_each (call n bodies Owner) ls (or_else P (JObj [])) s"
  by (simp add: fire_def fire_with_def lookup_own)

lemma times_called_called: "times_called f (called arg gs) = count_list gs f"
  by (induction gs) (simp_all add: times_called_def called_def)

lemma times_called_simps [simp]:
  "times_called f [] = 0"
  "times_called f (c # cs) = (if fst c = f then Suc (times_called f cs) else times_called f cs)"
  "times_called f (cs @ ds) = times_called f cs + times_called f ds"
  by (simp_all add: times_called_def)

lemma fire_inert_prefix:
  assumes "eventListeners s N = Some (map Fn gs @ rest)" and "\<forall>g\<in>set gs. bodies g = []"
  shows "fire (Suc n) bodies s N P =
           call_each (call (Suc n) bodies Owner) rest (or_else P (JObj []))
             (s\<lparr>calls := calls s @ called (or_else P (JObj [])) gs\<rparr>)"
  using assms by (simp add: fire_own call_each_append call_each_inert)

lemma fire_inert:
  assumes "eventListeners s N = Some (map Fn gs)" and "\<forall>g\<in>set gs. bodies g = []"
  shows "fire (Suc n) bodies s N P =
           Some (Returned, s\<lparr>calls := calls s @ called (or_else P (JObj [])) gs\<rparr>)"
proof -
  from assms(1) have "eventListeners s N = Some (map Fn gs @ [])" by simp
  from fire_inert_prefix [OF this assms(2)] show ?thesis by simp
qed

subsection \<open>Listeners that subscribe or remove while \<open>fire\<close> runs\<close>

lemma call_subscriber:
  assumes "bodies g = [DoOn (Name N (Some l))]" and "eventListeners s N = Some ls"
  shows "call (Suc n) bodies this (Fn g) arg s
           = Some (Returned,
               s\<lparr>eventListeners := (eventListeners s)(N \<mapsto> ls @ [l]),
                 calls := calls s @ [(g, this, arg)]\<rparr>)"
  using assms by (simp add: on_name_own del: on_name.simps)

lemma call_remover:
  assumes "bodies g = [DoOff (Name N (Some l))]" and "eventListeners s N = Some ls"
  shows "call (Suc n) bodies this (Fn g) arg s
           = Some (Returned,
               s\<lparr>eventListeners := (eventListeners s)(N \<mapsto> remove1 l ls),
                 calls := calls s @ [(g, this, arg)]\<rparr>)"
  using assms by (simp add: removeEventListener_handler)

lemma subscribe_during:
  assumes "\<forall>g\<in>set gs. bodies g = [] \<or> bodies g = [DoOn (Name N (Some l))]"
  shows "eventListeners s N = Some ls \<Longrightarrow>
         call_each (call (Suc n) bodies Owner) (map Fn gs) arg s
           = Some (Returned,
               s\<lparr>eventListeners := (eventListeners s)
                    (N \<mapsto> ls @ replicate (length (filter (\<lambda>g. bodies g \<noteq> []) gs)) l),
                 calls := calls s @ called arg gs\<rparr>)"
  using assms
proof (induction gs arbitrary: s ls)
  case Nil
  then show ?case by (simp add: called_def fun_upd_idem)
next
  case (Cons g gs)
  from Cons.prems have rest: "\<forall>g\<in>set gs. bodies g = [] \<or> bodies g = [DoOn (Name N (Some l))]"
    by simp
  show ?case
  proof (cases "bodies g = []")
    case True
    let ?s' = "s\<lparr>calls := calls s @ [(g, Owner, arg)]\<rparr>"
    from Cons.prems have "eventListeners ?s' N = Some ls" by simp
    from Cons.IH [OF this rest] True show ?thesis
      by (simp add: called_def)
  next
    case False
    with Cons.prems have b: "bodies g = [DoOn (Name N (Some l))]" by simp
    let ?s' = "s\<lparr>eventListeners := (eventListeners s)(N \<mapsto> ls @ [l]),
                 calls := calls s @ [(g, Owner, arg)]\<rparr>"
    have "eventListeners ?s' N = Some ((ls @ [l]))" by simp
    from Cons.IH [OF this rest]
      call_subscriber [where bodies = bodies and g = g, OF b Cons.prems(1), of n Owner arg] False
    show ?thesis
      by (simp add: called_def replicate_app_Cons_same del: call.simps cong: if_cong)
  qed
qed

lemma remove_during:
  assumes "\<forall>g\<in>set gs. bodies g = [] \<or> bodies g = [DoOff (Name N (Some l))]"
  shows "eventListeners s N = Some ls \<Longrightarrow>
         call_each (call (Suc n) bodies Owner) (map Fn gs) arg s
           = Some (Returned,
               s\<lparr>eventListeners := (eventListeners s)
                    (N \<mapsto> (remove1 l ^^ length (filter (\<lambda>g. bodies g \<noteq> []) gs)) ls),
                 calls := calls s @ called arg gs\<rparr>)"
  using assms
proof (induction gs arbitrary: s ls)
  case Nil
  then show ?case by (simp add: called_def fun_upd_idem)
next
  case (Cons g gs)
  from Cons.prems have rest: "\<forall>g\<in>set gs. bodies g = [] \<or> bodies g = [DoOff (Name N (Some l))]"
    by simp
  show ?case
  proof (cases "bodies g = []")
    case True
    let ?s' = "s\<lparr>calls := calls s @ [(g, Owner, arg)]\<rparr>"
    from Cons.prems have "eventListeners ?s' N = Some ls" by simp
    from Cons.IH [OF this rest] True show ?thesis
      by (simp add: called_def)
  next
    case False
    with Cons.prems have b: "bodies g = [DoOff (Name N (Some l))]" by simp
    let ?s' = "s\<lparr>eventListeners := (eventListeners s)(N \<mapsto> remove1 l ls),
                 calls := calls s @ [(g, Owner, arg)]\<rparr>"
    have "eventListeners ?s' N = Some (remove1 l ls)" by simp
    from Cons.IH [OF this rest] call_remover [where bodies = bodies and g = g, OF b Cons.prems(1), of n Owner arg] False
    show ?thesis
      by (simp add: called_def funpow_swap1 del: call.simps cong: if_cong)
  qed
qed

lemma remove1_repeat:
  "l \<notin> set (remove1 l ls) \<Longrightarrow> 0 < k \<Longrightarrow> (remove1 l ^^ k) ls = remove1 l ls"
proof (induction k)
  case 0
  then show ?case by simp
next
  case (Suc k)
  show ?case
  proof (cases k)
    case 0
    then show ?thesis by simp
  next
    case (Suc j)
    with Suc.IH Suc.prems have "(remove1 l ^^ k) ls = remove1 l ls" by simp
    with Suc.prems show ?thesis by (simp add: remove1_idem)
  qed
qed

lemma count_active:
  assumes "\<forall>g\<in>set gs. g \<noteq> a \<longrightarrow> bodies g = []" and "bodies a \<noteq> []"
  shows "length (filter (\<lambda>g. bodies g \<noteq> []) gs) = count_list gs a"
  using assms by (induction gs) auto

lemma count_list_replicate_same: "count_list (replicate k f) f = k"
  by (induction k) simp_all

lemma count_list_absent: "f \<notin> set gs \<Longrightarrow> count_list gs f = 0"
  by (induction gs) auto

lemma count_list_present: "f \<in> set gs \<Longrightarrow> 0 < count_list gs f"
  by (induction gs) auto

lemma subscribed_later:
  assumes ev: "eventListeners s N = Some (map Fn gs)"
    and l1: "l1 \<in> set gs" and l2: "l2 \<notin> set gs"
    and b1: "bodies l1 = [DoOn (Name N (Some (Fn l2)))]"
    and others: "\<forall>g\<in>set gs. g \<noteq> l1 \<longrightarrow> bodies g = []"
    and b2: "bodies l2 = []"
    and k: "k = count_list gs l1"
    and s1: "s1 = s\<lparr>eventListeners := (eventListeners s)(N \<mapsto> map Fn (gs @ replicate k l2)),
                     calls := calls s @ called (or_else P (JObj [])) gs\<rparr>"
  shows "fire (Suc n) bodies s N P = Some (Returned, s1)
     \<and> times_called l2 (called (or_else P (JObj [])) gs) = 0
     \<and> (\<exists>s2. fire (Suc n) bodies s1 N Q = Some (Returned, s2)
            \<and> calls s2 = calls s1 @ called (or_else Q (JObj [])) (gs @ replicate k l2))
     \<and> times_called l2 (called (or_else Q (JObj [])) (gs @ replicate k l2)) = k
     \<and> 0 < k"
proof -
  from b1 others have shape: "\<forall>g\<in>set gs. bodies g = [] \<or> bodies g = [DoOn (Name N (Some (Fn l2)))]"
    by auto
  from b1 have "bodies l1 \<noteq> []" by simp
  from count_active [OF others this] k
  have act: "length (filter (\<lambda>g. bodies g \<noteq> []) gs) = k" by simp
  have first: "fire (Suc n) bodies s N P = Some (Returned, s1)"
    using subscribe_during [OF shape ev, of n "or_else P (JObj [])"] ev act s1
    by (simp add: fire_own del: call.simps)
  from l2 have none: "times_called l2 (called (or_else P (JObj [])) gs) = 0"
    by (simp add: times_called_called)
  from l1 k have pos: "0 < k" by (simp add: count_list_present)
  from s1 have ev1: "eventListeners s1 N = Some (map Fn (gs @ replicate k l2))" by simp
  from shape b2 have shape1:
    "\<forall>g\<in>set (gs @ replicate k l2). bodies g = [] \<or> bodies g = [DoOn (Name N (Some (Fn l2)))]"
    by auto
  have second: "\<exists>s2. fire (Suc n) bodies s1 N Q = Some (Returned, s2)
            \<and> calls s2 = calls s1 @ called (or_else Q (JObj [])) (gs @ replicate k l2)"
    using subscribe_during [OF shape1 ev1, of n "or_else Q (JObj [])"] ev1
    by (simp add: fire_own del: call.simps)
  from l2 have count: "times_called l2 (called (or_else Q (JObj [])) (gs @ replicate k l2)) = k"
    by (simp add: times_called_called count_list_replicate_same count_list_absent)
  from first none second count pos show ?thesis by blast
qed

lemma removed_later:
  assumes ev: "eventListeners t M = Some (map Fn (pre @ r1 # mid @ r2 # post))"
    and r2: "r2 \<notin> set (pre @ r1 # mid @ post)"
    and b1: "bodies r1 = [DoOff (Name M (Some (Fn r2)))]"
    and others: "\<forall>g\<in>set (pre @ mid @ r2 # post). g \<noteq> r1 \<longrightarrow> bodies g = []"
    and t1: "t1 = t\<lparr>eventListeners := (eventListeners t)(M \<mapsto> map Fn (pre @ r1 # mid @ post)),
                     calls := calls t @ called (or_else P (JObj [])) (pre @ r1 # mid @ r2 # post)\<rparr>"
  shows "fire (Suc n) bodies t M P = Some (Returned, t1)
     \<and> times_called r2 (called (or_else P (JObj [])) (pre @ r1 # mid @ r2 # post)) = 1
     \<and> (\<exists>t2. fire (Suc n) bodies t1 M Q = Some (Returned, t2)
            \<and> calls t2 = calls t1 @ called (or_else Q (JObj [])) (pre @ r1 # mid @ post))
     \<and> times_called r2 (called (or_else Q (JObj [])) (pre @ r1 # mid @ post)) = 0"
proof -
  let ?all = "pre @ r1 # mid @ r2 # post"
  let ?left = "pre @ r1 # mid @ post"
  from b1 others have shape: "\<forall>g\<in>set ?all. bodies g = [] \<or> bodies g = [DoOff (Name M (Some (Fn r2)))]"
    by auto
  then have shape1: "\<forall>g\<in>set ?left. bodies g = [] \<or> bodies g = [DoOff (Name M (Some (Fn r2)))]"
    by auto
  from r2 have notin: "Fn r2 \<notin> set (map Fn (pre @ r1 # mid))" by auto
  have "map Fn ?all = map Fn (pre @ r1 # mid) @ Fn r2 # map Fn post" by simp
  with remove1_first [OF notin, of "map Fn post"]
  have rem: "remove1 (Fn r2) (map Fn ?all) = map Fn ?left" by simp
  from r2 have gone: "Fn r2 \<notin> set (map Fn ?left)" by auto
  from b1 have "bodies r1 \<noteq> []" by simp
  then have "0 < length (filter (\<lambda>g. bodies g \<noteq> []) ?all)"
    by (simp add: filter_empty_conv)
  with remove1_repeat [of "Fn r2" "map Fn ?all"] rem gone
  have all: "(remove1 (Fn r2) ^^ length (filter (\<lambda>g. bodies g \<noteq> []) ?all)) (map Fn ?all) = map Fn ?left"
    by simp
  have first: "fire (Suc n) bodies t M P = Some (Returned, t1)"
    using remove_during [OF shape ev, of n "or_else P (JObj [])"] ev all t1
    by (simp add: fire_own del: call.simps)
  from r2 have once: "times_called r2 (called (or_else P (JObj [])) ?all) = 1"
    by (simp add: times_called_called)
  from t1 have ev1: "eventListeners t1 M = Some (map Fn ?left)" by simp
  have second: "\<exists>t2. fire (Suc n) bodies t1 M Q = Some (Returned, t2)
            \<and> calls t2 = calls t1 @ called (or_else Q (JObj [])) ?left"
    using remove_during [OF shape1 ev1, of n "or_else Q (JObj [])"] ev1
    by (simp add: fire_own del: call.simps)
  from r2 have never: "times_called r2 (called (or_else Q (JObj [])) ?left) = 0"
    by (simp add: times_called_called)
  from first once second never show ?thesis by blast
qed

lemma tick_once_eq:
  "tick_once = \<lparr>eventListeners = [Str ''tick'' \<mapsto> [Fn 0]], closures = 0, calls = []\<rparr>"
  by (simp add: tick_once_def new_observable_def lookup_def object_prototype_names_def)

lemma tick_twice_eq:
  "tick_twice = \<lparr>eventListeners = [Str ''tick'' \<mapsto> [Fn 0, Fn 0]], closures = 0, calls = []\<rparr>"
  by (simp add: tick_twice_def tick_once_eq lookup_def)

lemma on_Normal:
  assumes "snd (on s (Name N (Some l))) = Normal d"
  shows "lookup s N \<noteq> Inherited"
    and "d = OffWith (Name N (Some l))"
    and "fst (on s (Name N (Some l))) = s\<lparr>eventListeners := (eventListeners s)(N \<mapsto> stored s N @ [l])\<rparr>"
proof -
  from assms have "snd (on_name s N (Some l)) = Normal d" by simp
  then show a: "lookup s N \<noteq> Inherited" by (rule on_name_Normal)
  from on_name_returns [OF a, of l] assms show "d = OffWith (Name N (Some l))"
    by (simp del: on_name.simps)
  from on_name_returns [OF a, of l]
  show "fst (on s (Name N (Some l))) = s\<lparr>eventListeners := (eventListeners s)(N \<mapsto> stored s N @ [l])\<rparr>"
    by (simp del: on_name.simps)
qed

lemma on_then_off:
  assumes "l \<notin> set (stored s N)" and "lookup s N \<noteq> Inherited"
  shows "off (fst (on s (Name N (Some l)))) (Name N (Some l))
           = Some (Returned, s\<lparr>eventListeners := (eventListeners s)(N \<mapsto> stored s N)\<rparr>)"
proof -
  let ?s1 = "fst (on s (Name N (Some l)))"
  from on_name_returns [OF assms(2), of l]
  have s1: "?s1 = s\<lparr>eventListeners := (eventListeners s)(N \<mapsto> stored s N @ [l])\<rparr>"
    by (simp del: on_name.simps)
  then have "eventListeners ?s1 N = Some (stored s N @ l # [])" by simp
  from off_first_occurrence [OF this assms(1)] s1
  show ?thesis by simp
qed

lemma off_all_lookup:
  "eventListeners (off_all s) k =
     (if is_string_key k then (case eventListeners s k of None \<Rightarrow> None | Some ls \<Rightarrow> Some [])
      else eventListeners s k)"
  by (simp add: off_all_def split: option.splits)

lemma calls_off_all [simp]: "calls (off_all s) = calls s"
  by (simp add: off_all_def)

lemma off_all_visits:
  "is_string_key k \<Longrightarrow> eventListeners s k = Some ls \<Longrightarrow>
   removeEventListener s k None = Some (Returned, s\<lparr>eventListeners := (eventListeners s)(k \<mapsto> [])\<rparr>)
   \<and> eventListeners (off_all s) k = Some []"
  by (simp add: removeEventListener_clear off_all_lookup)

subsection \<open>The arrow function of \<open>once\<close>\<close>

lemma once_Normal:
  assumes "snd (once s (Name N (Some h))) = Normal d"
  shows "lookup s N \<noteq> Inherited"
    and "d = OffWith (Name N (Some (OnceWrapper (closures s) N h)))"
    and "fst (once s (Name N (Some h)))
           = s\<lparr>eventListeners := (eventListeners s)(N \<mapsto> stored s N @ [OnceWrapper (closures s) N h]),
               closures := Suc (closures s)\<rparr>"
proof -
  let ?s = "s\<lparr>closures := Suc (closures s)\<rparr>"
  let ?W = "OnceWrapper (closures s) N h"
  from assms have n: "snd (on_name ?s N (Some ?W)) = Normal d" by simp
  have l: "lookup ?s N = lookup s N" by (simp add: lookup_def)
  from on_name_Normal [OF n] l show a: "lookup s N \<noteq> Inherited" by simp
  with l have a': "lookup ?s N \<noteq> Inherited" by simp
  have st: "stored ?s N = stored s N" by (simp add: stored_def)
  from on_name_returns [OF a', of ?W] n show "d = OffWith (Name N (Some ?W))"
    by (simp del: on_name.simps)
  from on_name_returns [OF a', of ?W] st
  show "fst (once s (Name N (Some h)))
           = s\<lparr>eventListeners := (eventListeners s)(N \<mapsto> stored s N @ [?W]),
               closures := Suc (closures s)\<rparr>"
    by (simp del: on_name.simps)
qed

lemma call_wrapper_returned:
  assumes "call n bodies NoThis h arg s = Some (Returned, s')"
    and "eventListeners s' N = Some (pre @ OnceWrapper c N h # post)"
    and "OnceWrapper c N h \<notin> set pre"
  shows "call (Suc n) bodies this (OnceWrapper c N h) arg s
           = Some (Returned, s'\<lparr>eventListeners := (eventListeners s')(N \<mapsto> pre @ post)\<rparr>)"
  using assms(1) off_first_occurrence [OF assms(2,3)] by (simp del: off.simps)

lemma call_wrapper_threw:
  "call n bodies NoThis h arg s = Some (Threw e, s') \<Longrightarrow>
   call (Suc n) bodies this (OnceWrapper c N h) arg s = Some (Threw e, s')"
  by simp

lemma once_throwing_fire:
  assumes inert: "\<forall>g\<in>set gs. bodies g = []"
    and thr: "bodies f = DoThrow e # rest"
    and ev: "eventListeners s1 N = Some (map Fn gs @ [OnceWrapper c N (Fn f)])"
  shows "fire (Suc (Suc n)) bodies s1 N P
           = Some (Threw e, s1\<lparr>calls := calls s1 @ called (or_else P (JObj [])) gs
                                    @ [(f, NoThis, or_else P (JObj []))]\<rparr>)"
  using fire_inert_prefix [OF ev inert] thr by simp





lemma once_load_eq:
  "once_load = \<lparr>eventListeners = [Str ''load'' \<mapsto> [OnceWrapper 0 (Str ''load'') (Fn 0)]],
                 closures = Suc 0, calls = []\<rparr>"
  by (simp add: once_load_def new_observable_def lookup_def object_prototype_names_def)




section \<open>The claims\<close>







text \<open>
  C3. \<open>fire\<close> walks the copy of the array taken when it starts. (1) When a listener \<open>l1\<close>
  under \<open>N\<close> subscribes \<open>l2\<close> to \<open>N\<close> while \<open>fire(N, P)\<close> runs, that \<open>fire\<close> calls the
  listeners stored at its start and not \<open>l2\<close>; the next \<open>fire(N, Q)\<close> calls \<open>l2\<close>.
  (2) When a listener \<open>r1\<close> removes with \<open>off(M, r2)\<close> a listener \<open>r2\<close> that comes after it
  in the array, that \<open>fire\<close> still calls \<open>r2\<close>; the next \<open>fire(M, Q)\<close> does not. The other
  listeners are functions that return without calling the observable.
\<close>

theorem fire_iterates_copy:
  assumes "eventListeners s N = Some (map Fn gs)"
    and "l1 \<in> set gs" and "l2 \<notin> set gs"
    and "bodies l1 = [DoOn (Name N (Some (Fn l2)))]"
    and "\<forall>g\<in>set gs. g \<noteq> l1 \<longrightarrow> bodies g = []"
    and "bodies l2 = []"
    and "k = count_list gs l1"
    and "s1 = s\<lparr>eventListeners := (eventListeners s)(N \<mapsto> map Fn (gs @ replicate k l2)),
                  calls := calls s @ called (or_else P (JObj [])) gs\<rparr>"
    and "eventListeners t M = Some (map Fn (pre @ r1 # mid @ r2 # post))"
    and "r2 \<notin> set (pre @ r1 # mid @ post)"
    and "bodies r1 = [DoOff (Name M (Some (Fn r2)))]"
    and "\<forall>g\<in>set (pre @ mid @ r2 # post). g \<noteq> r1 \<longrightarrow> bodies g = []"
    and "t1 = t\<lparr>eventListeners := (eventListeners t)(M \<mapsto> map Fn (pre @ r1 # mid @ post)),
                  calls := calls t @ called (or_else P (JObj [])) (pre @ r1 # mid @ r2 # post)\<rparr>"
  shows "(fire (Suc n) bodies s N P = Some (Returned, s1)
          \<and> times_called l2 (called (or_else P (JObj [])) gs) = 0
          \<and> (\<exists>s2. fire (Suc n) bodies s1 N Q = Some (Returned, s2)
                 \<and> calls s2 = calls s1 @ called (or_else Q (JObj [])) (gs @ replicate k l2))
          \<and> times_called l2 (called (or_else Q (JObj [])) (gs @ replicate k l2)) = k
          \<and> 0 < k)
       \<and> (fire (Suc n) bodies t M P = Some (Returned, t1)
          \<and> times_called r2 (called (or_else P (JObj [])) (pre @ r1 # mid @ r2 # post)) = 1
          \<and> (\<exists>t2. fire (Suc n) bodies t1 M Q = Some (Returned, t2)
                 \<and> calls t2 = calls t1 @ called (or_else Q (JObj [])) (pre @ r1 # mid @ post))
          \<and> times_called r2 (called (or_else Q (JObj [])) (pre @ r1 # mid @ post)) = 0)"
proof
  show "fire (Suc n) bodies s N P = Some (Returned, s1)
          \<and> times_called l2 (called (or_else P (JObj [])) gs) = 0
          \<and> (\<exists>s2. fire (Suc n) bodies s1 N Q = Some (Returned, s2)
                 \<and> calls s2 = calls s1 @ called (or_else Q (JObj [])) (gs @ replicate k l2))
          \<and> times_called l2 (called (or_else Q (JObj [])) (gs @ replicate k l2)) = k
          \<and> 0 < k"
    by (rule subscribed_later [where bodies = bodies and ?l1.0 = l1, OF assms(1-8)])
  show "fire (Suc n) bodies t M P = Some (Returned, t1)
          \<and> times_called r2 (called (or_else P (JObj [])) (pre @ r1 # mid @ r2 # post)) = 1
          \<and> (\<exists>t2. fire (Suc n) bodies t1 M Q = Some (Returned, t2)
                 \<and> calls t2 = calls t1 @ called (or_else Q (JObj [])) (pre @ r1 # mid @ post))
          \<and> times_called r2 (called (or_else Q (JObj [])) (pre @ r1 # mid @ post)) = 0"
    by (rule removed_later [where bodies = bodies and ?r1.0 = r1, OF assms(9-13)])
qed

theorem fire_iterates_copy_witness:
  "fire (Suc 0) reentrant two_names (Str ''tick'') (JNum 1)
       = Some (Returned,
           two_names\<lparr>eventListeners := (eventListeners two_names)(Str ''tick'' \<mapsto> [Fn 1, Fn 2]),
                      calls := [(1, Owner, JNum 1)]\<rparr>)
   \<and> (\<exists>s2. fire (Suc 0) reentrant
              (two_names\<lparr>eventListeners := (eventListeners two_names)(Str ''tick'' \<mapsto> [Fn 1, Fn 2]),
                         calls := [(1, Owner, JNum 1)]\<rparr>) (Str ''tick'') (JNum 2)
             = Some (Returned, s2)
          \<and> calls s2 = [(1, Owner, JNum 1), (1, Owner, JNum 2), (2, Owner, JNum 2)])
   \<and> fire (Suc 0) reentrant two_names (Str ''load'') (JNum 1)
       = Some (Returned,
           two_names\<lparr>eventListeners := (eventListeners two_names)(Str ''load'' \<mapsto> [Fn 3]),
                      calls := [(3, Owner, JNum 1), (4, Owner, JNum 1)]\<rparr>)
   \<and> (\<exists>t2. fire (Suc 0) reentrant
              (two_names\<lparr>eventListeners := (eventListeners two_names)(Str ''load'' \<mapsto> [Fn 3]),
                         calls := [(3, Owner, JNum 1), (4, Owner, JNum 1)]\<rparr>) (Str ''load'') (JNum 2)
             = Some (Returned, t2)
          \<and> calls t2 = [(3, Owner, JNum 1), (4, Owner, JNum 1), (3, Owner, JNum 2)])"
proof -
  let ?s1 = "two_names\<lparr>eventListeners := (eventListeners two_names)(Str ''tick'' \<mapsto> [Fn 1, Fn 2]),
                      calls := [(1, Owner, JNum 1)]\<rparr>"
  let ?t1 = "two_names\<lparr>eventListeners := (eventListeners two_names)(Str ''load'' \<mapsto> [Fn 3]),
                      calls := [(3, Owner, JNum 1), (4, Owner, JNum 1)]\<rparr>"
  have h1: "eventListeners two_names (Str ''tick'') = Some (map Fn [1])"
    by (simp add: two_names_def)
  have h2: "(1::nat) \<in> set [1]" by simp
  have h3: "(2::nat) \<notin> set [1]" by simp
  have h4: "reentrant 1 = [DoOn (Name (Str ''tick'') (Some (Fn 2)))]"
    by (simp add: reentrant_def scripts_def)
  have h5: "\<forall>g\<in>set [1::nat]. g \<noteq> 1 \<longrightarrow> reentrant g = []" by simp
  have h6: "reentrant 2 = []" by (simp add: reentrant_def scripts_def)
  have h7: "(1::nat) = count_list [1] 1" by simp
  have h8: "?s1 = two_names\<lparr>eventListeners := (eventListeners two_names)
                      (Str ''tick'' \<mapsto> map Fn ([1] @ replicate 1 2)),
                  calls := calls two_names @ called (or_else (JNum 1) (JObj [])) [1]\<rparr>"
    by (simp add: two_names_def called_def or_else_def)
  have h9: "eventListeners two_names (Str ''load'') = Some (map Fn ([] @ 3 # [] @ 4 # []))"
    by (simp add: two_names_def)
  have h10: "(4::nat) \<notin> set ([] @ 3 # [] @ [])" by simp
  have h11: "reentrant 3 = [DoOff (Name (Str ''load'') (Some (Fn 4)))]"
    by (simp add: reentrant_def scripts_def)
  have h12: "\<forall>g\<in>set ([] @ [] @ 4 # []). g \<noteq> 3 \<longrightarrow> reentrant g = []"
    by (simp add: reentrant_def scripts_def)
  have h13: "?t1 = two_names\<lparr>eventListeners := (eventListeners two_names)
                      (Str ''load'' \<mapsto> map Fn ([] @ 3 # [] @ [])),
                  calls := calls two_names @ called (or_else (JNum 1) (JObj [])) ([] @ 3 # [] @ 4 # [])\<rparr>"
    by (simp add: two_names_def called_def or_else_def)
  note w = fire_iterates_copy [where bodies = reentrant and n = 0 and Q = "JNum 2",
      OF h1 h2 h3 h4 h5 h6 h7 h8 h9 h10 h11 h12 h13]
  then show ?thesis
    by (simp add: called_def or_else_def)
qed

text \<open>
  C4. \<open>off()\<close> is to empty the sequence of every name the table knows, so that no later
  \<open>fire\<close> calls a listener. The code does not do so for a name that is a symbol: \<open>off()\<close>
  walks the table with \<open>for ... in\<close>, which does not visit symbol keys. After
  \<open>on(sym, f0); off()\<close> the listener is still stored and \<open>fire(sym, 1)\<close> calls it, while
  \<open>off(sym, f0)\<close> does remove it and \<open>off()\<close> does empty a string-named entry.
\<close>

theorem off_all_skips_symbol:
  "on new_observable (Name (Sym 0) (Some (Fn 0)))
       = (symbol_once, Normal (OffWith (Name (Sym 0) (Some (Fn 0)))))
   \<and> off symbol_once NoArgs = Some (Returned, off_all symbol_once)
   \<and> eventListeners (off_all symbol_once) (Sym 0) = Some [Fn 0]
   \<and> observed (fire (Suc 0) (scripts []) (off_all symbol_once) (Sym 0) (JNum 1))
       = Some (Returned, [(0, Owner, JNum 1)])
   \<and> off symbol_once (Name (Sym 0) (Some (Fn 0)))
       = Some (Returned, symbol_once\<lparr>eventListeners := [Sym 0 \<mapsto> []]\<rparr>)
   \<and> eventListeners (off_all tick_once) (Str ''tick'') = Some []"
  by (simp add: off_all_lookup symbol_once_def tick_once_eq new_observable_def observed_def
      fire_def fire_with_def lookup_def scripts_def or_else_def removeEventListener_def splice1_def)

text \<open>
  C5, as stated, fails when \<open>L\<close> is stored twice under \<open>N\<close>: each run of the disposer
  removes one occurrence, so one run leaves \<open>[L]\<close> and two runs leave \<open>[]\<close>.
\<close>

theorem disposer_twice_counterexample:
  "snd (on tick_once (Name (Str ''tick'') (Some (Fn 0)))) = Normal (OffWith (Name (Str ''tick'') (Some (Fn 0))))
   \<and> dispose tick_twice (OffWith (Name (Str ''tick'') (Some (Fn 0)))) = Some (Returned, tick_once)
   \<and> dispose tick_once (OffWith (Name (Str ''tick'') (Some (Fn 0))))
       = Some (Returned, tick_once\<lparr>eventListeners := [Str ''tick'' \<mapsto> []]\<rparr>)
   \<and> stored tick_once (Str ''tick'') = [Fn 0]
   \<and> stored (tick_once\<lparr>eventListeners := [Str ''tick'' \<mapsto> []]\<rparr>) (Str ''tick'') = []"
  by (simp add: tick_twice_eq tick_once_eq stored_def removeEventListener_def splice1_def lookup_def)

text \<open>
  C5, amended. When \<open>L\<close> is not already stored under \<open>N\<close>, running the disposer returned
  by \<open>on(N, L)\<close> twice leaves the same state as running it once: \<open>N\<close> has the listeners
  it had before, and a later \<open>fire(N, ...)\<close> does not call \<open>L\<close>. In any state where \<open>L\<close> is
  not stored under \<open>N\<close>, whatever removed it, and \<open>N\<close> is not a name that the table only
  inherits (it never is once \<open>on(N, L)\<close> has returned), the disposer changes nothing and
  raises nothing.
\<close>

theorem disposer_idempotent:
  assumes "Fn f \<notin> set (stored s N)"
    and "s1 = fst (on s (Name N (Some (Fn f))))"
    and "snd (on s (Name N (Some (Fn f)))) = Normal d"
    and "s2 = s\<lparr>eventListeners := (eventListeners s)(N \<mapsto> stored s N)\<rparr>"
  shows "dispose s1 d = Some (Returned, s2)
     \<and> dispose s2 d = Some (Returned, s2)
     \<and> stored s2 N = stored s N
     \<and> (\<forall>t. Fn f \<notin> set (stored t N) \<and> lookup t N \<noteq> Inherited \<longrightarrow> dispose t d = Some (Returned, t))
     \<and> (stored s N = map Fn gs \<and> (\<forall>g\<in>set gs. bodies g = []) \<longrightarrow>
          fire (Suc n) bodies s2 N P
            = Some (Returned, s2\<lparr>calls := calls s @ called (or_else P (JObj [])) gs\<rparr>)
          \<and> times_called f (called (or_else P (JObj [])) gs) = 0)"
proof -
  note on = on_Normal [OF assms(3)]
  have d: "d = OffWith (Name N (Some (Fn f)))" by (rule on(2))
  have once: "dispose s1 d = Some (Returned, s2)"
    using on_then_off [OF assms(1) on(1)] assms(2,4) d by (simp del: on.simps off.simps)
  from assms(4) have ev: "eventListeners s2 N = Some (stored s N)" by simp
  then have st: "stored s2 N = stored s N" by (simp add: stored_def)
  have noop: "\<forall>t. Fn f \<notin> set (stored t N) \<and> lookup t N \<noteq> Inherited \<longrightarrow> dispose t d = Some (Returned, t)"
    using off_not_stored [of "Fn f" _ N] d by (simp del: off.simps)
  from ev have "lookup s2 N \<noteq> Inherited" by (simp add: lookup_own)
  with st assms(1) noop have twice: "dispose s2 d = Some (Returned, s2)" by simp
  have later: "stored s N = map Fn gs \<and> (\<forall>g\<in>set gs. bodies g = []) \<longrightarrow>
          fire (Suc n) bodies s2 N P
            = Some (Returned, s2\<lparr>calls := calls s @ called (or_else P (JObj [])) gs\<rparr>)
          \<and> times_called f (called (or_else P (JObj [])) gs) = 0"
  proof
    assume h: "stored s N = map Fn gs \<and> (\<forall>g\<in>set gs. bodies g = [])"
    with ev have "eventListeners s2 N = Some (map Fn gs)" by simp
    from fire_inert [OF this, of bodies n P] h assms(4)
    have "fire (Suc n) bodies s2 N P
            = Some (Returned, s2\<lparr>calls := calls s @ called (or_else P (JObj [])) gs\<rparr>)"
      by simp
    moreover from h assms(1) have "f \<notin> set gs" by auto
    then have "times_called f (called (or_else P (JObj [])) gs) = 0"
      by (simp add: times_called_called)
    ultimately show "fire (Suc n) bodies s2 N P
            = Some (Returned, s2\<lparr>calls := calls s @ called (or_else P (JObj [])) gs\<rparr>)
          \<and> times_called f (called (or_else P (JObj [])) gs) = 0"
      by blast
  qed
  from once twice st noop later show ?thesis by blast
qed

theorem disposer_idempotent_witness:
  "Fn 0 \<notin> set (stored new_observable (Str ''tick''))
   \<and> snd (on new_observable (Name (Str ''tick'') (Some (Fn 0)))) = Normal (OffWith (Name (Str ''tick'') (Some (Fn 0))))
   \<and> dispose tick_once (OffWith (Name (Str ''tick'') (Some (Fn 0))))
       = Some (Returned, new_observable\<lparr>eventListeners := [Str ''tick'' \<mapsto> []]\<rparr>)
   \<and> dispose (new_observable\<lparr>eventListeners := [Str ''tick'' \<mapsto> []]\<rparr>) (OffWith (Name (Str ''tick'') (Some (Fn 0))))
       = Some (Returned, new_observable\<lparr>eventListeners := [Str ''tick'' \<mapsto> []]\<rparr>)
   \<and> dispose new_observable (OffWith (Name (Str ''tick'') (Some (Fn 0)))) = Some (Returned, new_observable)
   \<and> fire (Suc 0) (scripts []) (new_observable\<lparr>eventListeners := [Str ''tick'' \<mapsto> []]\<rparr>)
        (Str ''tick'') (JObj [(''n'', JNum 2)])
       = Some (Returned, new_observable\<lparr>eventListeners := [Str ''tick'' \<mapsto> []]\<rparr>)"
proof -
  let ?d = "OffWith (Name (Str ''tick'') (Some (Fn 0)))"
  let ?s2 = "new_observable\<lparr>eventListeners := [Str ''tick'' \<mapsto> []]\<rparr>"
  have h1: "Fn 0 \<notin> set (stored new_observable (Str ''tick''))"
    by (simp add: stored_def new_observable_def)
  have h2: "tick_once = fst (on new_observable (Name (Str ''tick'') (Some (Fn 0))))"
    by (simp only: tick_once_def)
  have h3: "snd (on new_observable (Name (Str ''tick'') (Some (Fn 0)))) = Normal ?d"
    by (simp add: new_observable_def lookup_def object_prototype_names_def)
  have h4: "?s2 = new_observable\<lparr>eventListeners :=
      (eventListeners new_observable)(Str ''tick'' \<mapsto> stored new_observable (Str ''tick''))\<rparr>"
    by (simp add: stored_def new_observable_def)
  have h5: "stored new_observable (Str ''tick'') = map Fn [] \<and> (\<forall>g\<in>set []. scripts [] g = [])"
    by (simp add: stored_def new_observable_def)
  have h6: "Fn 0 \<notin> set (stored new_observable (Str ''tick'')) \<and> lookup new_observable (Str ''tick'') \<noteq> Inherited"
    by (simp add: stored_def new_observable_def lookup_def object_prototype_names_def)
  note w = disposer_idempotent [where gs = "[]" and bodies = "scripts []" and n = 0
      and P = "JObj [(''n'', JNum 2)]", OF h1 h2 h3 h4]
  from w have a: "dispose tick_once ?d = Some (Returned, ?s2)"
    and b: "dispose ?s2 ?d = Some (Returned, ?s2)"
    by blast+
  from w h6 have c: "dispose new_observable ?d = Some (Returned, new_observable)"
    by blast
  from w h5 have e: "fire (Suc 0) (scripts []) ?s2 (Str ''tick'') (JObj [(''n'', JNum 2)])
       = Some (Returned, ?s2\<lparr>calls := calls new_observable
             @ called (or_else (JObj [(''n'', JNum 2)]) (JObj [])) []\<rparr>)"
    by blast
  have "?s2\<lparr>calls := calls new_observable
             @ called (or_else (JObj [(''n'', JNum 2)]) (JObj [])) []\<rparr> = ?s2"
    by (simp add: new_observable_def called_def)
  with e have e': "fire (Suc 0) (scripts []) ?s2 (Str ''tick'') (JObj [(''n'', JNum 2)])
       = Some (Returned, ?s2)"
    by simp
  from h1 h3 a b c e' show ?thesis by simp
qed

text \<open>
  C6. When \<open>on(N, L)\<close> returns, a second \<open>on(N, L)\<close> returns as well and \<open>L\<close> is stored
  twice; \<open>fire(N, P)\<close> then calls \<open>L\<close> twice more than it did before; nothing is
  deduplicated and nothing is raised. \<open>off(N, L)\<close>, which is also what the disposer does,
  removes the first occurrence of \<open>L\<close> counted from the front and leaves every later
  occurrence in place.
\<close>

theorem duplicate_registration:
  "(snd (on s (Name N (Some l))) = Normal d \<longrightarrow>
      snd (on (fst (on s (Name N (Some l)))) (Name N (Some l))) = Normal d
      \<and> stored (fst (on (fst (on s (Name N (Some l)))) (Name N (Some l)))) N = stored s N @ [l, l])
   \<and> (snd (on s (Name N (Some (Fn f)))) = Normal d'
        \<and> stored s N = map Fn gs \<and> (\<forall>g\<in>set gs. bodies g = []) \<and> bodies f = []
        \<and> s2 = fst (on (fst (on s (Name N (Some (Fn f))))) (Name N (Some (Fn f)))) \<longrightarrow>
        fire (Suc n) bodies s2 N P
          = Some (Returned, s2\<lparr>calls := calls s @ called (or_else P (JObj [])) (gs @ [f, f])\<rparr>)
        \<and> times_called f (called (or_else P (JObj [])) (gs @ [f, f])) = count_list gs f + 2)
   \<and> (eventListeners t N = Some (pre @ l # post) \<and> l \<notin> set pre \<longrightarrow>
        off t (Name N (Some l))
          = Some (Returned, t\<lparr>eventListeners := (eventListeners t)(N \<mapsto> pre @ post)\<rparr>)
        \<and> (snd (on s (Name N (Some l))) = Normal d \<longrightarrow> dispose t d = off t (Name N (Some l))))"
proof (intro conjI impI)
  assume h: "snd (on s (Name N (Some l))) = Normal d"
  note on1 = on_Normal [OF h]
  let ?s1 = "fst (on s (Name N (Some l)))"
  from on1(3) have ev1: "eventListeners ?s1 N = Some (stored s N @ [l])" by simp
  from on_name_own [OF ev1, of l] on1(2)
  show "snd (on ?s1 (Name N (Some l))) = Normal d" by (simp del: on_name.simps)
  from on_name_own [OF ev1, of l]
  show "stored (fst (on ?s1 (Name N (Some l)))) N = stored s N @ [l, l]"
    by (simp add: stored_def del: on_name.simps)
next
  assume h: "snd (on s (Name N (Some (Fn f)))) = Normal d'
        \<and> stored s N = map Fn gs \<and> (\<forall>g\<in>set gs. bodies g = []) \<and> bodies f = []
        \<and> s2 = fst (on (fst (on s (Name N (Some (Fn f))))) (Name N (Some (Fn f))))"
  then have n: "snd (on s (Name N (Some (Fn f)))) = Normal d'" by blast
  note on1 = on_Normal [OF n]
  let ?s1 = "fst (on s (Name N (Some (Fn f))))"
  from on1(3) have ev1: "eventListeners ?s1 N = Some (stored s N @ [Fn f])" by simp
  from on_name_own [OF ev1, of "Fn f"] h on1(3)
  have s2: "s2 = s\<lparr>eventListeners := (eventListeners s)(N \<mapsto> map Fn (gs @ [f, f]))\<rparr>"
    by (simp del: on_name.simps)
  then have ev: "eventListeners s2 N = Some (map Fn (gs @ [f, f]))" by simp
  from h have "\<forall>g\<in>set (gs @ [f, f]). bodies g = []" by simp
  from fire_inert [OF ev this, of n P] s2
  show "fire (Suc n) bodies s2 N P
          = Some (Returned, s2\<lparr>calls := calls s @ called (or_else P (JObj [])) (gs @ [f, f])\<rparr>)"
    by simp
  show "times_called f (called (or_else P (JObj [])) (gs @ [f, f])) = count_list gs f + 2"
    by (simp add: times_called_called)
next
  assume "eventListeners t N = Some (pre @ l # post) \<and> l \<notin> set pre"
  then show "off t (Name N (Some l))
          = Some (Returned, t\<lparr>eventListeners := (eventListeners t)(N \<mapsto> pre @ post)\<rparr>)"
    using off_first_occurrence by blast
next
  assume "snd (on s (Name N (Some l))) = Normal d"
  from on_Normal(2) [OF this]
  show "dispose t d = off t (Name N (Some l))" by simp
qed

theorem duplicate_registration_witness:
  "snd (on new_observable (Name (Str ''tick'') (Some (Fn 0)))) = Normal (OffWith (Name (Str ''tick'') (Some (Fn 0))))
   \<and> snd (on tick_once (Name (Str ''tick'') (Some (Fn 0)))) = Normal (OffWith (Name (Str ''tick'') (Some (Fn 0))))
   \<and> stored tick_twice (Str ''tick'') = [Fn 0, Fn 0]
   \<and> fire (Suc 0) (scripts []) tick_twice (Str ''tick'') (JNum 5)
       = Some (Returned, tick_twice\<lparr>calls := [(0, Owner, JNum 5), (0, Owner, JNum 5)]\<rparr>)
   \<and> times_called 0 [(0, Owner, JNum 5), (0, Owner, JNum 5)] = 2
   \<and> off (three_listeners\<lparr>eventListeners := [Str ''tick'' \<mapsto> [Fn 1, Fn 0, Fn 2, Fn 0]]\<rparr>)
         (Name (Str ''tick'') (Some (Fn 0)))
       = Some (Returned, three_listeners\<lparr>eventListeners := [Str ''tick'' \<mapsto> [Fn 1, Fn 2, Fn 0]]\<rparr>)
   \<and> dispose (three_listeners\<lparr>eventListeners := [Str ''tick'' \<mapsto> [Fn 1, Fn 0, Fn 2, Fn 0]]\<rparr>)
         (OffWith (Name (Str ''tick'') (Some (Fn 0))))
       = Some (Returned, three_listeners\<lparr>eventListeners := [Str ''tick'' \<mapsto> [Fn 1, Fn 2, Fn 0]]\<rparr>)"
proof -
  let ?t = "three_listeners\<lparr>eventListeners := [Str ''tick'' \<mapsto> [Fn 1, Fn 0, Fn 2, Fn 0]]\<rparr>"
  let ?d = "OffWith (Name (Str ''tick'') (Some (Fn 0)))"
  have h0: "snd (on new_observable (Name (Str ''tick'') (Some (Fn 0)))) = Normal ?d"
    by (simp add: new_observable_def lookup_def object_prototype_names_def)
  have h1: "stored new_observable (Str ''tick'') = map Fn [] \<and> (\<forall>g\<in>set []. scripts [] g = [])
      \<and> scripts [] 0 = []
      \<and> tick_twice = fst (on (fst (on new_observable (Name (Str ''tick'') (Some (Fn 0)))))
            (Name (Str ''tick'') (Some (Fn 0))))"
    by (simp add: stored_def new_observable_def scripts_def tick_twice_def tick_once_def)
  have h2: "eventListeners ?t (Str ''tick'') = Some ([Fn 1] @ Fn 0 # [Fn 2, Fn 0]) \<and> Fn 0 \<notin> set [Fn 1]"
    by simp
  note w = duplicate_registration [where s = new_observable and N = "Str ''tick''" and l = "Fn 0"
      and d = ?d and d' = ?d
      and gs = "[]" and bodies = "scripts []" and f = 0 and ?s2.0 = tick_twice and n = 0 and P = "JNum 5"
      and t = ?t and pre = "[Fn 1]" and post = "[Fn 2, Fn 0]"]
  from w h0 have a: "snd (on tick_once (Name (Str ''tick'') (Some (Fn 0)))) = Normal ?d
      \<and> stored tick_twice (Str ''tick'') = stored new_observable (Str ''tick'') @ [Fn 0, Fn 0]"
    by (simp only: tick_twice_def tick_once_def)
  from w h0 h1 have b: "fire (Suc 0) (scripts []) tick_twice (Str ''tick'') (JNum 5)
          = Some (Returned, tick_twice\<lparr>calls := calls new_observable
                @ called (or_else (JNum 5) (JObj [])) ([] @ [0, 0])\<rparr>)"
    by blast
  from w h2 have c: "off ?t (Name (Str ''tick'') (Some (Fn 0)))
      = Some (Returned, ?t\<lparr>eventListeners := (eventListeners ?t)(Str ''tick'' \<mapsto> [Fn 1] @ [Fn 2, Fn 0])\<rparr>)"
    by blast
  from w h0 h2 have e: "dispose ?t ?d = off ?t (Name (Str ''tick'') (Some (Fn 0)))"
    by blast
  from h0 a b c e show ?thesis
    by (simp add: stored_def new_observable_def called_def or_else_def del: off.simps dispose.simps on.simps)
qed



text \<open>
  C8. If the listener at some position of the copied array throws, \<open>fire\<close> neither catches
  nor wraps the exception: \<open>fire\<close> ends with that same exception, in the state the
  listener left, and the listeners after that position are not called.
\<close>

theorem throw_ends_fire:
  assumes "eventListeners s N = Some (pre @ l # post)"
    and "call_each (call n bodies Owner) pre (or_else P (JObj [])) s = Some (Returned, s1)"
    and "call n bodies Owner l (or_else P (JObj [])) s1 = Some (Threw e, s2)"
  shows "fire n bodies s N P = Some (Threw e, s2)"
  using assms by (simp add: fire_own call_each_append)

theorem throw_ends_fire_witness:
  "eventListeners three_listeners (Str ''tick'') = Some ([Fn 0] @ Fn 1 # [Fn 2])
   \<and> call_each (call (Suc 0) (scripts [(1, [DoThrow (JStr ''boom'')])]) Owner) [Fn 0]
        (or_else (JNum 7) (JObj [])) three_listeners
       = Some (Returned, three_listeners\<lparr>calls := [(0, Owner, JNum 7)]\<rparr>)
   \<and> call (Suc 0) (scripts [(1, [DoThrow (JStr ''boom'')])]) Owner (Fn 1)
        (or_else (JNum 7) (JObj [])) (three_listeners\<lparr>calls := [(0, Owner, JNum 7)]\<rparr>)
       = Some (Threw (JStr ''boom''),
               three_listeners\<lparr>calls := [(0, Owner, JNum 7), (1, Owner, JNum 7)]\<rparr>)
   \<and> fire (Suc 0) (scripts [(1, [DoThrow (JStr ''boom'')])]) three_listeners (Str ''tick'') (JNum 7)
       = Some (Threw (JStr ''boom''),
               three_listeners\<lparr>calls := [(0, Owner, JNum 7), (1, Owner, JNum 7)]\<rparr>)"
proof -
  have h1: "eventListeners three_listeners (Str ''tick'') = Some ([Fn 0] @ Fn 1 # [Fn 2])"
    by (simp add: three_listeners_def)
  have h2: "call_each (call (Suc 0) (scripts [(1, [DoThrow (JStr ''boom'')])]) Owner) [Fn 0]
        (or_else (JNum 7) (JObj [])) three_listeners
       = Some (Returned, three_listeners\<lparr>calls := [(0, Owner, JNum 7)]\<rparr>)"
    by (simp add: three_listeners_def scripts_def or_else_def)
  have h3: "call (Suc 0) (scripts [(1, [DoThrow (JStr ''boom'')])]) Owner (Fn 1)
        (or_else (JNum 7) (JObj [])) (three_listeners\<lparr>calls := [(0, Owner, JNum 7)]\<rparr>)
       = Some (Threw (JStr ''boom''),
               three_listeners\<lparr>calls := [(0, Owner, JNum 7), (1, Owner, JNum 7)]\<rparr>)"
    by (simp add: three_listeners_def scripts_def or_else_def)
  from h1 h2 h3 throw_ends_fire [OF h1 h2 h3] show ?thesis by simp
qed

text \<open>
  C9. No operation is to raise an error of its own: \<open>off(N, L)\<close> and \<open>fire(N, P)\<close> on a
  name without a sequence are to do nothing. The code does so for a name such as \<open>load\<close>,
  but not for a name that the table inherits from \<open>Object.prototype\<close>: on a new
  observable, \<open>fire('toString')\<close>, \<open>off('valueOf', f0)\<close> and \<open>on('constructor', f0)\<close> raise
  \<open>TypeError\<close>, because the guards take the inherited value for a stored array.
\<close>

theorem inherited_name_raises:
  "fire (Suc 0) (scripts []) new_observable (Str ''toString'') JUndefined
       = Some (Threw JTypeError, new_observable)
   \<and> off new_observable (Name (Str ''valueOf'') (Some (Fn 0))) = Some (Threw JTypeError, new_observable)
   \<and> on new_observable (Name (Str ''constructor'') (Some (Fn 0))) = (new_observable, Abrupt JTypeError)
   \<and> fire (Suc 0) (scripts []) new_observable (Str ''load'') JUndefined = Some (Returned, new_observable)
   \<and> off new_observable (Name (Str ''load'') (Some (Fn 0))) = Some (Returned, new_observable)"
  by (simp add: fire_def fire_with_def lookup_def new_observable_def object_prototype_names_def
      removeEventListener_def)

text \<open>
  C10. The arrow function installed by \<open>once\<close> calls the handler first and removes itself
  only when the handler has returned. If the handler returns, the arrow function ends in
  the state the handler left with its own first occurrence under the name taken out of the
  table. If the handler throws, it ends with the handler's exception in the state the
  handler left, the table untouched. So with a handler that throws, the arrow function is
  still stored after \<open>fire\<close>, and the next \<open>fire\<close> of the name calls the handler again.
\<close>

theorem once_handler_first:
  "(call n bodies NoThis h arg s = Some (Returned, s')
      \<and> eventListeners s' N = Some (pre @ OnceWrapper c N h # post)
      \<and> OnceWrapper c N h \<notin> set pre \<longrightarrow>
      call (Suc n) bodies this (OnceWrapper c N h) arg s
        = Some (Returned, s'\<lparr>eventListeners := (eventListeners s')(N \<mapsto> pre @ post)\<rparr>))
   \<and> (call n bodies NoThis h arg s = Some (Threw e, s') \<longrightarrow>
      call (Suc n) bodies this (OnceWrapper c N h) arg s = Some (Threw e, s'))
   \<and> (snd (once t (Name N (Some (Fn f)))) = Normal d
       \<and> stored t N = map Fn gs \<and> (\<forall>g\<in>set gs. bodies g = []) \<and> bodies f = DoThrow e # rest
       \<and> t1 = fst (once t (Name N (Some (Fn f))))
       \<and> t2 = t1\<lparr>calls := calls t @ called (or_else P (JObj [])) gs @ [(f, NoThis, or_else P (JObj []))]\<rparr>
      \<longrightarrow>
        stored t1 N = map Fn gs @ [OnceWrapper (closures t) N (Fn f)]
      \<and> fire (Suc (Suc m)) bodies t1 N P = Some (Threw e, t2)
      \<and> stored t2 N = map Fn gs @ [OnceWrapper (closures t) N (Fn f)]
      \<and> fire (Suc (Suc m)) bodies t2 N Q
          = Some (Threw e,
              t2\<lparr>calls := calls t2 @ called (or_else Q (JObj [])) gs @ [(f, NoThis, or_else Q (JObj []))]\<rparr>))"
proof (intro conjI impI)
  assume "call n bodies NoThis h arg s = Some (Returned, s')
      \<and> eventListeners s' N = Some (pre @ OnceWrapper c N h # post)
      \<and> OnceWrapper c N h \<notin> set pre"
  then show "call (Suc n) bodies this (OnceWrapper c N h) arg s
        = Some (Returned, s'\<lparr>eventListeners := (eventListeners s')(N \<mapsto> pre @ post)\<rparr>)"
    using call_wrapper_returned by blast
next
  assume "call n bodies NoThis h arg s = Some (Threw e, s')"
  then show "call (Suc n) bodies this (OnceWrapper c N h) arg s = Some (Threw e, s')"
    by (rule call_wrapper_threw)
next
  assume h: "snd (once t (Name N (Some (Fn f)))) = Normal d
       \<and> stored t N = map Fn gs \<and> (\<forall>g\<in>set gs. bodies g = []) \<and> bodies f = DoThrow e # rest
       \<and> t1 = fst (once t (Name N (Some (Fn f))))
       \<and> t2 = t1\<lparr>calls := calls t @ called (or_else P (JObj [])) gs @ [(f, NoThis, or_else P (JObj []))]\<rparr>"
  then have n: "snd (once t (Name N (Some (Fn f)))) = Normal d" by blast
  from once_Normal(3) [OF n] h
  have t1: "t1 = t\<lparr>eventListeners := (eventListeners t)(N \<mapsto> map Fn gs @ [OnceWrapper (closures t) N (Fn f)]),
               closures := Suc (closures t)\<rparr>"
    by (simp del: once.simps)
  then have ev: "eventListeners t1 N = Some (map Fn gs @ [OnceWrapper (closures t) N (Fn f)])"
    by simp
  then show "stored t1 N = map Fn gs @ [OnceWrapper (closures t) N (Fn f)]"
    by (simp add: stored_def)
  from t1 have c1: "calls t1 = calls t" by simp
  from h have inert: "\<forall>g\<in>set gs. bodies g = []" and thr: "bodies f = DoThrow e # rest" by blast+
  from h have t2: "t2 = t1\<lparr>calls := calls t @ called (or_else P (JObj [])) gs @ [(f, NoThis, or_else P (JObj []))]\<rparr>"
    by blast
  from once_throwing_fire [where bodies = bodies and f = f, OF inert thr ev, of m P] c1 t2
  show "fire (Suc (Suc m)) bodies t1 N P = Some (Threw e, t2)"
    by simp
  from ev t2 have ev2: "eventListeners t2 N = Some (map Fn gs @ [OnceWrapper (closures t) N (Fn f)])"
    by simp
  then show "stored t2 N = map Fn gs @ [OnceWrapper (closures t) N (Fn f)]"
    by (simp add: stored_def)
  from once_throwing_fire [where bodies = bodies and f = f, OF inert thr ev2, of m Q]
  show "fire (Suc (Suc m)) bodies t2 N Q
          = Some (Threw e,
              t2\<lparr>calls := calls t2 @ called (or_else Q (JObj [])) gs @ [(f, NoThis, or_else Q (JObj []))]\<rparr>)"
    by simp
qed

theorem once_handler_first_witness:
  "call (Suc 0) (scripts []) NoThis (Fn 0) (JNum 1) once_load
       = Some (Returned, once_load\<lparr>calls := [(0, NoThis, JNum 1)]\<rparr>)
   \<and> eventListeners (once_load\<lparr>calls := [(0, NoThis, JNum 1)]\<rparr>) (Str ''load'')
       = Some ([] @ OnceWrapper 0 (Str ''load'') (Fn 0) # [])
   \<and> call (Suc (Suc 0)) (scripts []) Owner (OnceWrapper 0 (Str ''load'') (Fn 0)) (JNum 1) once_load
       = Some (Returned, once_load\<lparr>eventListeners := [Str ''load'' \<mapsto> []], calls := [(0, NoThis, JNum 1)]\<rparr>)
   \<and> call (Suc 0) boom NoThis (Fn 0) (JNum 1) once_load
       = Some (Threw (JStr ''boom''), once_load\<lparr>calls := [(0, NoThis, JNum 1)]\<rparr>)
   \<and> call (Suc (Suc 0)) boom Owner (OnceWrapper 0 (Str ''load'') (Fn 0)) (JNum 1) once_load
       = Some (Threw (JStr ''boom''), once_load\<lparr>calls := [(0, NoThis, JNum 1)]\<rparr>)
   \<and> snd (once new_observable (Name (Str ''load'') (Some (Fn 0))))
       = Normal (OffWith (Name (Str ''load'') (Some (OnceWrapper 0 (Str ''load'') (Fn 0)))))
   \<and> boom 0 = DoThrow (JStr ''boom'') # []
   \<and> stored once_load (Str ''load'') = [OnceWrapper 0 (Str ''load'') (Fn 0)]
   \<and> fire (Suc (Suc 0)) boom once_load (Str ''load'') JUndefined
       = Some (Threw (JStr ''boom''), once_load\<lparr>calls := [(0, NoThis, JObj [])]\<rparr>)
   \<and> stored (once_load\<lparr>calls := [(0, NoThis, JObj [])]\<rparr>) (Str ''load'')
       = [OnceWrapper 0 (Str ''load'') (Fn 0)]
   \<and> fire (Suc (Suc 0)) boom (once_load\<lparr>calls := [(0, NoThis, JObj [])]\<rparr>) (Str ''load'') JUndefined
       = Some (Threw (JStr ''boom''),
               once_load\<lparr>calls := [(0, NoThis, JObj []), (0, NoThis, JObj [])]\<rparr>)"
proof -
  let ?W = "OnceWrapper 0 (Str ''load'') (Fn 0)"
  let ?r = "once_load\<lparr>calls := [(0, NoThis, JNum 1)]\<rparr>"
  have r: "call (Suc 0) (scripts []) NoThis (Fn 0) (JNum 1) once_load = Some (Returned, ?r)"
    by (simp add: scripts_def once_load_eq)
  have ev: "eventListeners ?r (Str ''load'') = Some ([] @ ?W # [])"
    by (simp add: once_load_eq)
  have nin: "?W \<notin> set []" by simp
  have th: "call (Suc 0) boom NoThis (Fn 0) (JNum 1) once_load = Some (Threw (JStr ''boom''), ?r)"
    by (simp add: boom_def scripts_def once_load_eq)
  have n: "snd (once new_observable (Name (Str ''load'') (Some (Fn 0)))) = Normal (OffWith (Name (Str ''load'') (Some ?W)))"
    by (simp add: new_observable_def lookup_def object_prototype_names_def)
  have st: "stored new_observable (Str ''load'') = map Fn []"
    by (simp add: stored_def new_observable_def)
  have b: "boom 0 = DoThrow (JStr ''boom'') # []"
    by (simp add: boom_def scripts_def)
  have o: "once_load = fst (once new_observable (Name (Str ''load'') (Some (Fn 0))))"
    by (simp only: once_load_def)
  have i: "\<forall>g\<in>set []. boom g = []" by simp
  have a: "call (Suc (Suc 0)) (scripts []) Owner ?W (JNum 1) once_load
       = Some (Returned, ?r\<lparr>eventListeners := (eventListeners ?r)(Str ''load'' \<mapsto> [] @ [])\<rparr>)"
    using r ev nin once_handler_first [where n = "Suc 0" and bodies = "scripts []" and h = "Fn 0"
      and arg = "JNum 1" and s = once_load and s' = ?r and this = Owner and c = 0 and N = "Str ''load''"
      and pre = "[]" and post = "[]"]
    by blast
  have c: "once_load\<lparr>calls := [(0, NoThis, JObj [])]\<rparr>
       = once_load\<lparr>calls := calls new_observable @ called (or_else JUndefined (JObj [])) []
                               @ [(0, NoThis, or_else JUndefined (JObj []))]\<rparr>"
    by (simp add: new_observable_def called_def or_else_def)
  note w = once_handler_first [where n = "Suc 0" and bodies = boom and h = "Fn 0" and arg = "JNum 1"
      and s = once_load and s' = ?r and this = Owner
      and c = 0 and N = "Str ''load''" and e = "JStr ''boom''" and t = new_observable and gs = "[]"
      and f = 0 and rest = "[]" and ?t1.0 = once_load
      and ?t2.0 = "once_load\<lparr>calls := [(0, NoThis, JObj [])]\<rparr>" and P = JUndefined and Q = JUndefined
      and m = 0 and d = "OffWith (Name (Str ''load'') (Some ?W))"]
  from w th n st i b o c
  have d: "call (Suc (Suc 0)) boom Owner ?W (JNum 1) once_load = Some (Threw (JStr ''boom''), ?r)
   \<and> stored once_load (Str ''load'') = map Fn [] @ [OnceWrapper (closures new_observable) (Str ''load'') (Fn 0)]
   \<and> fire (Suc (Suc 0)) boom once_load (Str ''load'') JUndefined
       = Some (Threw (JStr ''boom''), once_load\<lparr>calls := [(0, NoThis, JObj [])]\<rparr>)
   \<and> stored (once_load\<lparr>calls := [(0, NoThis, JObj [])]\<rparr>) (Str ''load'')
       = map Fn [] @ [OnceWrapper (closures new_observable) (Str ''load'') (Fn 0)]
   \<and> fire (Suc (Suc 0)) boom (once_load\<lparr>calls := [(0, NoThis, JObj [])]\<rparr>) (Str ''load'') JUndefined
       = Some (Threw (JStr ''boom''),
               once_load\<lparr>calls := [(0, NoThis, JObj [])]\<rparr>
                 \<lparr>calls := calls (once_load\<lparr>calls := [(0, NoThis, JObj [])]\<rparr>)
                     @ called (or_else JUndefined (JObj [])) [] @ [(0, NoThis, or_else JUndefined (JObj []))]\<rparr>)"
    by blast
  have e: "?r\<lparr>eventListeners := (eventListeners ?r)(Str ''load'' \<mapsto> [] @ [])\<rparr>
      = once_load\<lparr>eventListeners := [Str ''load'' \<mapsto> []], calls := [(0, NoThis, JNum 1)]\<rparr>"
    by (simp add: once_load_eq)
  from r ev th n b a d e show ?thesis
    by (simp add: called_def or_else_def new_observable_def del: once.simps call.simps)
qed

end
